theory Spec2Isabelle
  imports Complex_Main "HOL-Library.Multiset" "HOL-Library.Signed_Division"
begin

section \<open>Machine integers, durations and instants\<close>

text \<open>
  Go's \<^verbatim>\<open>int\<close>, \<^verbatim>\<open>int64\<close> and \<^verbatim>\<open>time.Duration\<close> are modelled as HOL integers; on the
  64-bit targets \<^verbatim>\<open>int\<close> and \<^verbatim>\<open>int64\<close> coincide, so the conversions \<^verbatim>\<open>int64(bu)\<close>,
  \<^verbatim>\<open>time.Duration(p)\<close> are the identity.  The one arithmetic operation of \<^verbatim>\<open>lb.go\<close> that
  can leave the 64-bit range, the product \<^verbatim>\<open>time.Millisecond*time.Duration(p)\<close>, is written
  with its two's-complement wrap-around.  An instant (\<^verbatim>\<open>time.Time\<close>) is a number of
  nanoseconds.
\<close>

type_synonym Duration = int
type_synonym Time = int

definition wrap64 :: "int \<Rightarrow> int" where
  "wrap64 x = (x + 2 ^ 63) mod 2 ^ 64 - 2 ^ 63"

definition Millisecond :: Duration where
  "Millisecond = 1000000"

definition Second :: Duration where
  "Second = 1000000000"

definition MaxInt64 :: int where
  "MaxInt64 = 2 ^ 63 - 1"

text \<open>\<^verbatim>\<open>x * y\<close> on \<^verbatim>\<open>int64\<close>.\<close>

definition mul64 :: "int \<Rightarrow> int \<Rightarrow> int" where
  "mul64 x y = wrap64 (x * y)"

text \<open>\<^verbatim>\<open>x / y\<close> on \<^verbatim>\<open>int64\<close>: the quotient truncated towards zero (\<^verbatim>\<open>y\<close> is positive at
  the only use, in \<^verbatim>\<open>Add\<close>).\<close>

definition quo64 :: "int \<Rightarrow> int \<Rightarrow> int" where
  "quo64 x y = wrap64 (x sdiv y)"

text \<open>\<^verbatim>\<open>d.Seconds()\<close>, with exact rationals in place of \<^verbatim>\<open>float64\<close>.\<close>

definition Seconds :: "Duration \<Rightarrow> rat" where
  "Seconds d = of_int d / of_int Second"

section \<open>The token bucket of \<^verbatim>\<open>golang.org/x/time/rate\<close>\<close>

text \<open>
  \<^verbatim>\<open>lb.go\<close> uses three entry points of the library: \<^verbatim>\<open>rate.Every\<close>, \<^verbatim>\<open>rate.NewLimiter\<close> and
  \<^verbatim>\<open>(*Limiter).Allow\<close>.  They are transcribed from the library, with the limiter's
  \<^verbatim>\<open>float64\<close> token count as an exact rational and the reading of the clock
  (\<^verbatim>\<open>time.Now()\<close> inside \<^verbatim>\<open>Allow\<close>) as an argument.  \<^verbatim>\<open>rate.Inf\<close> is the constructor \<open>Inf_Limit\<close>.
\<close>

datatype Limit = Inf_Limit | Limit rat

record Limiter =
  lim_limit :: Limit
  lim_burst :: int
  lim_tokens :: rat
  lim_last :: Time

definition Every :: "Duration \<Rightarrow> Limit" where
  "Every interval = (if interval \<le> 0 then Inf_Limit else Limit (1 / Seconds interval))"

definition NewLimiter :: "Limit \<Rightarrow> int \<Rightarrow> Limiter" where
  "NewLimiter r b = \<lparr>lim_limit = r, lim_burst = b, lim_tokens = of_int b, lim_last = 0\<rparr>"

definition tokensFromDuration :: "rat \<Rightarrow> Duration \<Rightarrow> rat" where
  "tokensFromDuration r d = (if r \<le> 0 then 0 else Seconds d * r)"

definition durationFromTokens :: "rat \<Rightarrow> rat \<Rightarrow> Duration" where
  "durationFromTokens r tokens =
     (if r \<le> 0 then MaxInt64
      else let duration = (tokens / r) * of_int Second
           in if duration > of_int MaxInt64 then MaxInt64
              else if duration \<ge> 0 then \<lfloor>duration\<rfloor> else \<lceil>duration\<rceil>)"

text \<open>\<^verbatim>\<open>lim.advance(t)\<close>: the token count at instant \<open>t\<close>, capped at the burst.\<close>

definition advance :: "Limiter \<Rightarrow> rat \<Rightarrow> Time \<Rightarrow> rat" where
  "advance lm r t =
     (let last = (if t < lim_last lm then t else lim_last lm);
          elapsed = t - last;
          delta = tokensFromDuration r elapsed;
          tokens = lim_tokens lm + delta
      in if tokens > of_int (lim_burst lm) then of_int (lim_burst lm) else tokens)"

text \<open>\<^verbatim>\<open>lim.Allow()\<close>, that is \<^verbatim>\<open>lim.reserveN(time.Now(), 1, 0).ok\<close>, at instant \<open>t\<close>: the
  decision and the limiter after it.  A refused call leaves the limiter as it was.\<close>

definition Allow :: "Limiter \<Rightarrow> Time \<Rightarrow> bool \<times> Limiter" where
  "Allow lm t =
     (case lim_limit lm of
        Inf_Limit \<Rightarrow> (True, lm)
      | Limit r \<Rightarrow>
          if r = 0 then
            (if lim_burst lm \<ge> 1 then (True, lm\<lparr>lim_burst := lim_burst lm - 1\<rparr>)
             else (False, lm))
          else
            let tokens = advance lm r t - 1;
                waitDuration = (if tokens < 0 then durationFromTokens r (- tokens) else 0);
                ok = (1 \<le> lim_burst lm \<and> waitDuration \<le> 0)
            in if ok then (True, lm\<lparr>lim_last := t, lim_tokens := tokens\<rparr>)
               else (False, lm))"

section \<open>The balancer of \<^verbatim>\<open>lb.go\<close>\<close>

text \<open>
  \<^verbatim>\<open>namedHandler\<close>: the embedded \<^verbatim>\<open>http.Handler\<close> is the opaque capability that serves the
  request once the entry is chosen; it takes no part in the selection and is left out.
\<close>

record namedHandler =
  name :: string
  burst :: int
  average :: int
  period :: Duration
  priority :: int
  bucket :: Limiter
  canAllow :: bool

text \<open>
  \<^verbatim>\<open>LBBalancer\<close>.  \<^verbatim>\<open>handlers\<close> is a slice of pointers: an entry is an address, and \<open>mem\<close> is
  the part of the Go heap that holds the \<^verbatim>\<open>namedHandler\<close> objects (\<open>nalloc\<close> is the next
  address \<^verbatim>\<open>&namedHandler{...}\<close> returns).  \<^verbatim>\<open>status\<close> is the set of keys of the map.  An
  updater is a closure; the model keeps its identity and records its invocations.  The mutex,
  the sticky descriptor and \<^verbatim>\<open>serverAvailability\<close> are never read by the code below.
\<close>

type_synonym addr = nat
type_synonym updater = nat

record LBBalancer =
  wantsHealthCheck :: bool
  handlers :: "addr list"
  status :: "string set"
  updaters :: "updater list"
  mem :: "addr \<Rightarrow> namedHandler"
  nalloc :: addr

datatype error = errNoAvailableServer | errHealthCheckNotEnabled | panicIndexOutOfRange

definition nilHandler :: namedHandler where
  "nilHandler = \<lparr>name = [], burst = 0, average = 0, period = 0, priority = 0,
     bucket = \<lparr>lim_limit = Limit 0, lim_burst = 0, lim_tokens = 0, lim_last = 0\<rparr>,
     canAllow = False\<rparr>"

definition New :: "bool \<Rightarrow> LBBalancer" where
  "New wantHealthCheck =
     \<lparr>wantsHealthCheck = wantHealthCheck, handlers = [], status = {}, updaters = [],
      mem = (\<lambda>_. nilHandler), nalloc = 0\<rparr>"

subsection \<open>\<^verbatim>\<open>heap.Interface\<close>\<close>

definition Len :: "LBBalancer \<Rightarrow> nat" where
  "Len b = length (handlers b)"

definition Less :: "LBBalancer \<Rightarrow> nat \<Rightarrow> nat \<Rightarrow> bool" where
  "Less b i j = (priority (mem b (handlers b ! i)) < priority (mem b (handlers b ! j)))"

definition Swap :: "LBBalancer \<Rightarrow> nat \<Rightarrow> nat \<Rightarrow> LBBalancer" where
  "Swap b i j = b\<lparr>handlers := (handlers b)[i := handlers b ! j, j := handlers b ! i]\<rparr>"

definition Push :: "LBBalancer \<Rightarrow> addr \<Rightarrow> LBBalancer" where
  "Push b h = b\<lparr>handlers := handlers b @ [h]\<rparr>"

text \<open>\<^verbatim>\<open>Pop\<close> panics on an empty slice.\<close>

definition Pop :: "LBBalancer \<Rightarrow> (addr \<times> LBBalancer) option" where
  "Pop b =
     (if handlers b = [] then None
      else Some (last (handlers b), b\<lparr>handlers := butlast (handlers b)\<rparr>))"

subsection \<open>\<^verbatim>\<open>container/heap\<close> over that interface\<close>

text \<open>
  The indices are naturals: \<^verbatim>\<open>(j - 1) / 2\<close> is \<open>0\<close> at \<^verbatim>\<open>j = 0\<close> in Go (the quotient truncates
  towards zero) as it is on \<open>nat\<close>.  \<^verbatim>\<open>down\<close>'s boolean result is used by \<^verbatim>\<open>heap.Fix\<close> and
  \<^verbatim>\<open>heap.Remove\<close> only and is dropped.
\<close>

function up :: "LBBalancer \<Rightarrow> nat \<Rightarrow> LBBalancer" where
  "up h j =
     (let i = (j - 1) div 2
      in if i = j \<or> \<not> Less h j i then h else up (Swap h i j) i)"
  by pat_completeness auto
termination
  by (relation "measure (\<lambda>(h, j). j)") auto

function down :: "LBBalancer \<Rightarrow> nat \<Rightarrow> nat \<Rightarrow> LBBalancer" where
  "down h i n =
     (let j1 = 2 * i + 1
      in if j1 \<ge> n then h
         else let j = (if j1 + 1 < n \<and> Less h (j1 + 1) j1 then j1 + 1 else j1)
              in if \<not> Less h j i then h else down (Swap h i j) j n)"
  by pat_completeness auto
termination
  by (relation "measure (\<lambda>(h, i, n). n - i)") auto

definition heap_Push :: "LBBalancer \<Rightarrow> addr \<Rightarrow> LBBalancer" where
  "heap_Push h x = (let h1 = Push h x in up h1 (Len h1 - 1))"

text \<open>\<^verbatim>\<open>heap.Pop\<close>: on an empty heap \<^verbatim>\<open>h.Swap(0, -1)\<close> panics.\<close>

definition heap_Pop :: "LBBalancer \<Rightarrow> (addr \<times> LBBalancer) option" where
  "heap_Pop h =
     (if Len h = 0 then None
      else let n = Len h - 1;
               h1 = Swap h 0 n;
               h2 = down h1 0 n
           in Pop h2)"


declare up.simps [simp del]
declare down.simps [simp del]

subsection \<open>The heap operations move addresses only\<close>

text \<open>The child \<^verbatim>\<open>down\<close> compares with the parent: the right one when it exists and is
  smaller, the left one otherwise.\<close>

definition minChild :: "LBBalancer \<Rightarrow> nat \<Rightarrow> nat \<Rightarrow> nat" where
  "minChild h i n =
     (if 2 * i + 1 + 1 < n \<and> Less h (2 * i + 1 + 1) (2 * i + 1) then 2 * i + 1 + 1 else 2 * i + 1)"

lemma up_unfold:
  "up h j =
     (if (j - 1) div 2 = j \<or> \<not> Less h j ((j - 1) div 2) then h
      else up (Swap h ((j - 1) div 2) j) ((j - 1) div 2))"
  by (subst up.simps) (simp add: Let_def)

lemma down_unfold:
  "down h i n =
     (if 2 * i + 1 \<ge> n \<or> \<not> Less h (minChild h i n) i then h
      else down (Swap h i (minChild h i n)) (minChild h i n) n)"
  by (subst down.simps) (simp add: Let_def minChild_def)

lemma up_induct [case_names stop swap]:
  assumes "\<And>h j. (j - 1) div 2 = j \<or> \<not> Less h j ((j - 1) div 2) \<Longrightarrow> P h j"
    and "\<And>h j. (j - 1) div 2 \<noteq> j \<Longrightarrow> Less h j ((j - 1) div 2) \<Longrightarrow>
           P (Swap h ((j - 1) div 2) j) ((j - 1) div 2) \<Longrightarrow> P h j"
  shows "P h j"
proof (induction h j rule: up.induct)
  case (1 h j)
  show ?case
  proof (cases "(j - 1) div 2 = j \<or> \<not> Less h j ((j - 1) div 2)")
    case True
    then show ?thesis by (rule assms(1))
  next
    case False
    then show ?thesis
      using "1.IH" [OF refl] assms(2) [of j h] by blast
  qed
qed

lemma down_induct [case_names stop swap]:
  assumes "\<And>h i n. 2 * i + 1 \<ge> n \<or> \<not> Less h (minChild h i n) i \<Longrightarrow> P h i n"
    and "\<And>h i n. 2 * i + 1 < n \<Longrightarrow> Less h (minChild h i n) i \<Longrightarrow>
           P (Swap h i (minChild h i n)) (minChild h i n) n \<Longrightarrow> P h i n"
  shows "P h i n"
proof (induction h i n rule: down.induct)
  case (1 h i n)
  show ?case
  proof (cases "2 * i + 1 \<ge> n \<or> \<not> Less h (minChild h i n) i")
    case True
    then show ?thesis by (rule assms(1))
  next
    case False
    then have "P (Swap h i (minChild h i n)) (minChild h i n) n"
      using "1.IH" [OF refl _ refl] by (simp add: minChild_def)
    with False show ?thesis
      using assms(2) [of i n h] by simp
  qed
qed

lemma up_frame: "up h j = h\<lparr>handlers := handlers (up h j)\<rparr>"
proof (induction h j rule: up_induct)
  case (stop h j)
  then show ?case by (subst (1 2) up_unfold) simp
next
  case (swap h j)
  have "up h j = up (Swap h ((j - 1) div 2) j) ((j - 1) div 2)"
    using swap.hyps by (subst up_unfold) simp
  with swap.IH show ?case by (simp add: Swap_def)
qed

lemma down_frame: "down h i n = h\<lparr>handlers := handlers (down h i n)\<rparr>"
proof (induction h i n rule: down_induct)
  case (stop h i n)
  then show ?case by (subst (1 2) down_unfold) simp
next
  case (swap h i n)
  have "down h i n = down (Swap h i (minChild h i n)) (minChild h i n) n"
    using swap.hyps by (subst down_unfold) simp
  with swap.IH show ?case by (simp add: Swap_def)
qed

lemma length_up [simp]: "length (handlers (up h j)) = length (handlers h)"
proof (induction h j rule: up_induct)
  case (stop h j)
  then show ?case by (subst up_unfold) simp
next
  case (swap h j)
  have "up h j = up (Swap h ((j - 1) div 2) j) ((j - 1) div 2)"
    using swap.hyps by (subst up_unfold) simp
  with swap.IH show ?case by (simp add: Swap_def)
qed

lemma length_down [simp]: "length (handlers (down h i n)) = length (handlers h)"
proof (induction h i n rule: down_induct)
  case (stop h i n)
  then show ?case by (subst down_unfold) simp
next
  case (swap h i n)
  have "down h i n = down (Swap h i (minChild h i n)) (minChild h i n) n"
    using swap.hyps by (subst down_unfold) simp
  with swap.IH show ?case by (simp add: Swap_def)
qed

lemma heap_Pop_length:
  assumes "heap_Pop h = Some (x, h')"
  shows "Suc (length (handlers h')) = length (handlers h)"
proof -
  from assms have ne: "handlers h \<noteq> []"
    by (auto simp: heap_Pop_def Len_def split: if_splits)
  define h2 where "h2 = down (Swap h 0 (Len h - 1)) 0 (Len h - 1)"
  have len: "length (handlers h2) = length (handlers h)"
    by (simp add: h2_def Swap_def)
  from assms ne have "Pop h2 = Some (x, h')"
    by (simp add: heap_Pop_def Len_def h2_def Let_def)
  then have "handlers h' = butlast (handlers h2)"
    by (auto simp: Pop_def split: if_splits)
  with len ne show ?thesis by (cases "handlers h") auto
qed

subsection \<open>The selection\<close>

text \<open>\<^verbatim>\<open>handler.canAllow = handler.bucket.Allow()\<close> at instant \<open>t\<close>: what the statement makes
  of the object, and of the balancer whose entry at address \<open>handler\<close> it is.\<close>

definition allowHandler :: "namedHandler \<Rightarrow> Time \<Rightarrow> namedHandler" where
  "allowHandler h t = (let (ok, lm) = Allow (bucket h) t in h\<lparr>bucket := lm, canAllow := ok\<rparr>)"

definition bucketAllow :: "LBBalancer \<Rightarrow> addr \<Rightarrow> Time \<Rightarrow> LBBalancer" where
  "bucketAllow b handler t = b\<lparr>mem := (mem b)(handler := allowHandler (mem b handler) t)\<rparr>"

text \<open>\<^verbatim>\<open>for _, handler := range poppedHandlers { heap.Push(b, handler) }\<close>\<close>

fun pushAll :: "LBBalancer \<Rightarrow> addr list \<Rightarrow> LBBalancer" where
  "pushAll b [] = b"
| "pushAll b (handler # poppedHandlers) = pushAll (heap_Push b handler) poppedHandlers"

lemma bucketAllow_handlers [simp]: "handlers (bucketAllow b x t) = handlers b"
  by (simp add: bucketAllow_def)

text \<open>
  The loop of \<^verbatim>\<open>nextServer\<close>.  \<open>now k\<close> is what \<^verbatim>\<open>time.Now()\<close> returns inside the \<open>k\<close>-th call
  of \<^verbatim>\<open>Allow\<close> of the round (\<open>k\<close> counts from \<open>0\<close>).  The result carries, after the outcome
  and the balancer, the final value of \<^verbatim>\<open>poppedHandlers\<close>: the entries the round evaluated,
  in the order it evaluated them.
\<close>

function nextServer_loop ::
  "(nat \<Rightarrow> Time) \<Rightarrow> LBBalancer \<Rightarrow> addr list \<Rightarrow> (error + addr) \<times> LBBalancer \<times> addr list" where
  "nextServer_loop now b poppedHandlers =
     (if Len b = 0 then (Inl errNoAvailableServer, pushAll b poppedHandlers, poppedHandlers)
      else case heap_Pop b of
             None \<Rightarrow> (Inl panicIndexOutOfRange, b, poppedHandlers)
           | Some (handler, b1) \<Rightarrow>
               let b2 = bucketAllow b1 handler (now (length poppedHandlers));
                   poppedHandlers' = poppedHandlers @ [handler]
               in if name (mem b2 handler) \<in> status b2 \<and> canAllow (mem b2 handler)
                  then (Inr handler, pushAll b2 poppedHandlers', poppedHandlers')
                  else nextServer_loop now b2 poppedHandlers')"
  by pat_completeness auto
termination
proof (relation "measure (\<lambda>(now, b, poppedHandlers). length (handlers b))")
  show "wf (measure (\<lambda>(now, b, poppedHandlers). length (handlers b)))"
    by simp
next
  fix now :: "nat \<Rightarrow> Time" and b :: LBBalancer and poppedHandlers :: "addr list"
    and x2 :: "addr \<times> LBBalancer" and handler :: addr and b1 b2 :: LBBalancer
    and poppedHandlers' :: "addr list"
  assume "heap_Pop b = Some x2" "(handler, b1) = x2"
    and "b2 = bucketAllow b1 handler (now (length poppedHandlers))"
  then show "((now, b2, poppedHandlers'), (now, b, poppedHandlers))
      \<in> measure (\<lambda>(now, b, poppedHandlers). length (handlers b))"
    using heap_Pop_length [of b handler b1] by simp
qed

declare nextServer_loop.simps [simp del]

definition nextServer :: "(nat \<Rightarrow> Time) \<Rightarrow> LBBalancer \<Rightarrow> (error + addr) \<times> LBBalancer" where
  "nextServer now b =
     (if length (handlers b) = 0 \<or> status b = {} then (Inl errNoAvailableServer, b)
      else let (r, b', poppedHandlers) = nextServer_loop now b [] in (r, b'))"


subsection \<open>\<^verbatim>\<open>ServeHTTP\<close>\<close>

text \<open>What \<^verbatim>\<open>ServeHTTP\<close> does with the request: it answers 503 or 500 itself, or calls
  \<^verbatim>\<open>server.ServeHTTP(w, req)\<close> on the chosen entry.  A panic unwinds through it.\<close>

datatype response = StatusServiceUnavailable | StatusInternalServerError | Forwarded addr | Panicked

definition ServeHTTP :: "(nat \<Rightarrow> Time) \<Rightarrow> LBBalancer \<Rightarrow> response \<times> LBBalancer" where
  "ServeHTTP now b =
     (if length (handlers b) = 0 \<or> status b = {} then (StatusServiceUnavailable, b)
      else case nextServer now b of
             (Inl err, b') \<Rightarrow>
               (if err = panicIndexOutOfRange then Panicked
                else if err = errNoAvailableServer then StatusServiceUnavailable
                else StatusInternalServerError, b')
           | (Inr server, b') \<Rightarrow> (Forwarded server, b'))"

subsection \<open>\<^verbatim>\<open>Add\<close>, \<^verbatim>\<open>SetStatus\<close>, \<^verbatim>\<open>RegisterStatusUpdater\<close>\<close>

text \<open>The four \<^verbatim>\<open>*int\<close> parameters are options: \<open>None\<close> is \<^verbatim>\<open>nil\<close>.\<close>

definition Add ::
  "LBBalancer \<Rightarrow> string \<Rightarrow> int option \<Rightarrow> int option \<Rightarrow> int option \<Rightarrow> int option \<Rightarrow> LBBalancer" where
  "Add b nm pburst paverage pperiod ppriority =
     (let bu = (case pburst of None \<Rightarrow> 1 | Some v \<Rightarrow> v);
          bu = (if bu \<le> 1 then 1 else bu);
          a = (case paverage of None \<Rightarrow> 1 | Some v \<Rightarrow> v)
      in if a \<le> 0 then b
         else
           let p = (case pperiod of None \<Rightarrow> 1 | Some v \<Rightarrow> v);
               p = (if p \<le> 0 then 1 else p);
               prio = (case ppriority of None \<Rightarrow> 1 | Some v \<Rightarrow> v);
               prio = (if prio \<le> 0 then 1 else prio);
               bkt = NewLimiter (Every (quo64 (mul64 Millisecond p) a)) bu;
               h = nalloc b;
               b1 = b\<lparr>mem := (mem b)(h :=
                       \<lparr>name = nm, burst = bu, average = a, period = mul64 Millisecond p,
                        priority = prio, bucket = bkt, canAllow = True\<rparr>),
                     nalloc := Suc h\<rparr>;
               b2 = heap_Push b1 h
           in b2\<lparr>status := insert nm (status b2)\<rparr>)"

text \<open>\<^verbatim>\<open>SetStatus\<close> returns, with the balancer, the calls \<^verbatim>\<open>fn(upAfter)\<close> it made, in order.\<close>

definition SetStatus :: "LBBalancer \<Rightarrow> string \<Rightarrow> bool \<Rightarrow> LBBalancer \<times> (updater \<times> bool) list" where
  "SetStatus b childName up' =
     (let upBefore = (status b \<noteq> {});
          b1 = (if up' then b\<lparr>status := insert childName (status b)\<rparr>
                else b\<lparr>status := status b - {childName}\<rparr>);
          upAfter = (status b1 \<noteq> {})
      in if upBefore = upAfter then (b1, [])
         else (b1, map (\<lambda>fn. (fn, upAfter)) (updaters b1)))"

definition RegisterStatusUpdater :: "LBBalancer \<Rightarrow> updater \<Rightarrow> error option \<times> LBBalancer" where
  "RegisterStatusUpdater b fn =
     (if \<not> wantsHealthCheck b then (Some errHealthCheckNotEnabled, b)
      else (None, b\<lparr>updaters := updaters b @ [fn]\<rparr>))"

subsection \<open>Histories of calls\<close>

text \<open>A call of the public interface, and what a caller observes of it: the response of a
  dispatch, the error of a registration, the updaters invoked.\<close>

datatype call =
    CallAdd string "int option" "int option" "int option" "int option"
  | CallSetStatus string bool
  | CallRegisterStatusUpdater updater
  | CallServeHTTP "nat \<Rightarrow> Time"

datatype event = Invoked updater bool | Responded response | Registered "error option"

fun exec :: "LBBalancer \<Rightarrow> call \<Rightarrow> LBBalancer \<times> event list" where
  "exec b (CallAdd nm pburst paverage pperiod ppriority) =
     (Add b nm pburst paverage pperiod ppriority, [])"
| "exec b (CallSetStatus childName up') =
     (case SetStatus b childName up' of (b', calls) \<Rightarrow> (b', map (\<lambda>(fn, u). Invoked fn u) calls))"
| "exec b (CallRegisterStatusUpdater fn) =
     (case RegisterStatusUpdater b fn of (err, b') \<Rightarrow> (b', [Registered err]))"
| "exec b (CallServeHTTP now) =
     (case ServeHTTP now b of (resp, b') \<Rightarrow> (b', [Responded resp]))"

fun run :: "LBBalancer \<Rightarrow> call list \<Rightarrow> LBBalancer" where
  "run b [] = b"
| "run b (c # cs) = run (fst (exec b c)) cs"


section \<open>The pool as a multiset\<close>

lemma Swap_mset: "i < length (handlers h) \<Longrightarrow> j < length (handlers h) \<Longrightarrow>
   mset (handlers (Swap h i j)) = mset (handlers h)"
  by (simp add: Swap_def mset_swap)

lemma minChild_bounds: "2 * i + 1 < n \<Longrightarrow> i < minChild h i n \<and> minChild h i n < n"
  by (simp add: minChild_def)

lemma minChild_cases: "minChild h i n = 2 * i + 1 \<or> minChild h i n = 2 * i + 2"
  by (simp add: minChild_def)

lemma mset_up: "j < length (handlers h) \<Longrightarrow> mset (handlers (up h j)) = mset (handlers h)"
proof (induction h j rule: up_induct)
  case (stop h j)
  then show ?case by (subst up_unfold) simp
next
  case (swap h j)
  have eq: "up h j = up (Swap h ((j - 1) div 2) j) ((j - 1) div 2)"
    using swap.hyps by (subst up_unfold) simp
  have lt: "(j - 1) div 2 < length (handlers h)"
    using swap.prems by simp
  have "mset (handlers (up (Swap h ((j - 1) div 2) j) ((j - 1) div 2))) =
        mset (handlers (Swap h ((j - 1) div 2) j))"
    using swap.IH lt by (simp add: Swap_def)
  then show ?case
    using lt swap.prems by (simp add: eq Swap_mset)
qed

lemma mset_down: "n \<le> length (handlers h) \<Longrightarrow> mset (handlers (down h i n)) = mset (handlers h)"
proof (induction h i n rule: down_induct)
  case (stop h i n)
  then show ?case by (subst down_unfold) simp
next
  case (swap h i n)
  have eq: "down h i n = down (Swap h i (minChild h i n)) (minChild h i n) n"
    using swap.hyps by (subst down_unfold) simp
  from minChild_bounds [OF swap.hyps(1), of h]
  have b: "i < length (handlers h)" "minChild h i n < length (handlers h)"
    using swap.prems by auto
  have "mset (handlers (down (Swap h i (minChild h i n)) (minChild h i n) n)) =
        mset (handlers (Swap h i (minChild h i n)))"
    using swap.IH swap.prems by (simp add: Swap_def)
  then show ?case
    using b by (simp add: eq Swap_mset)
qed

lemma down_nth_ge: "n \<le> k \<Longrightarrow> handlers (down h i n) ! k = handlers h ! k"
proof (induction h i n rule: down_induct)
  case (stop h i n)
  then show ?case by (subst down_unfold) simp
next
  case (swap h i n)
  have eq: "down h i n = down (Swap h i (minChild h i n)) (minChild h i n) n"
    using swap.hyps by (subst down_unfold) simp
  from minChild_bounds [OF swap.hyps(1), of h]
  have "i \<noteq> k" "minChild h i n \<noteq> k"
    using swap.prems by auto
  then have "handlers (Swap h i (minChild h i n)) ! k = handlers h ! k"
    by (simp add: Swap_def)
  with swap.IH swap.prems show ?case by (simp add: eq)
qed

lemma heap_Push_mset: "mset (handlers (heap_Push h x)) = add_mset x (mset (handlers h))"
  by (simp add: heap_Push_def Let_def Len_def Push_def mset_up)

lemma heap_Pop_Some:
  assumes "handlers h \<noteq> []"
  shows "heap_Pop h = Some (hd (handlers h),
           (down (Swap h 0 (length (handlers h) - 1)) 0 (length (handlers h) - 1))
             \<lparr>handlers := butlast (handlers (down (Swap h 0 (length (handlers h) - 1)) 0 (length (handlers h) - 1)))\<rparr>)"
proof -
  let ?n = "length (handlers h) - 1"
  let ?h2 = "down (Swap h 0 ?n) 0 ?n"
  have len: "length (handlers ?h2) = length (handlers h)"
    by (simp add: Swap_def)
  have ne: "handlers ?h2 \<noteq> []" using assms len by (metis length_0_conv)
  have "last (handlers ?h2) = handlers ?h2 ! ?n"
    using ne len by (simp add: last_conv_nth)
  also have "\<dots> = handlers (Swap h 0 ?n) ! ?n"
    by (rule down_nth_ge) simp
  also have "\<dots> = hd (handlers h)"
    using assms by (simp add: Swap_def hd_conv_nth)
  finally have "last (handlers ?h2) = hd (handlers h)" .
  then show ?thesis
    using assms ne by (simp add: heap_Pop_def Len_def Let_def Pop_def)
qed

lemma heap_Pop_None: "handlers h = [] \<Longrightarrow> heap_Pop h = None"
  by (simp add: heap_Pop_def Len_def)

lemma heap_Pop_mset:
  assumes "heap_Pop h = Some (x, h')"
  shows "mset (handlers h) = add_mset x (mset (handlers h'))"
proof -
  from assms have ne: "handlers h \<noteq> []"
    by (auto simp: heap_Pop_def Len_def split: if_splits)
  let ?n = "length (handlers h) - 1"
  let ?h2 = "down (Swap h 0 ?n) 0 ?n"
  from heap_Pop_Some [OF ne] assms
  have x: "x = hd (handlers h)" and h': "handlers h' = butlast (handlers ?h2)"
    by auto
  have len: "length (handlers ?h2) = length (handlers h)"
    by (simp add: Swap_def)
  have ne2: "handlers ?h2 \<noteq> []" using ne len by (metis length_0_conv)
  have lastx: "last (handlers ?h2) = x"
    using heap_Pop_Some [OF ne] assms ne2 ne by (auto simp: heap_Pop_def Len_def Let_def Pop_def)
  have "mset (handlers ?h2) = mset (handlers (Swap h 0 ?n))"
    by (rule mset_down) (simp add: Swap_def)
  also have "\<dots> = mset (handlers h)"
    using ne by (intro Swap_mset) auto
  finally have m: "mset (handlers ?h2) = mset (handlers h)" .
  have "mset (handlers ?h2) = add_mset (last (handlers ?h2)) (mset (butlast (handlers ?h2)))"
    using ne2 by (metis append_butlast_last_id mset.simps(2) mset_append union_mset_add_mset_right add.right_neutral mset.simps(1))
  with m lastx h' show ?thesis by simp
qed


section \<open>The pool as a binary heap\<close>

text \<open>The priority at a position of the slice, and the heap order on a prefix of it: no
  position is smaller than its parent.\<close>

definition key :: "LBBalancer \<Rightarrow> nat \<Rightarrow> int" where
  "key h i = priority (mem h (handlers h ! i))"

definition heap_upto :: "LBBalancer \<Rightarrow> nat \<Rightarrow> bool" where
  "heap_upto h n = (\<forall>c. 0 < c \<and> c < n \<longrightarrow> key h ((c - 1) div 2) \<le> key h c)"

definition heap_inv :: "LBBalancer \<Rightarrow> bool" where
  "heap_inv h = heap_upto h (length (handlers h))"

definition up_inv :: "LBBalancer \<Rightarrow> nat \<Rightarrow> nat \<Rightarrow> bool" where
  "up_inv h j n =
     ((\<forall>c. 0 < c \<and> c < n \<and> c \<noteq> j \<longrightarrow> key h ((c - 1) div 2) \<le> key h c) \<and>
      (\<forall>c. 0 < c \<and> c < n \<and> (c - 1) div 2 = j \<and> 0 < j \<longrightarrow> key h ((j - 1) div 2) \<le> key h c))"

definition down_inv :: "LBBalancer \<Rightarrow> nat \<Rightarrow> nat \<Rightarrow> bool" where
  "down_inv h i n =
     ((\<forall>c. 0 < c \<and> c < n \<and> (c - 1) div 2 \<noteq> i \<longrightarrow> key h ((c - 1) div 2) \<le> key h c) \<and>
      (\<forall>c. 0 < c \<and> c < n \<and> (c - 1) div 2 = i \<and> 0 < i \<longrightarrow> key h ((i - 1) div 2) \<le> key h c))"

lemma Less_key: "Less h i j = (key h i < key h j)"
  by (simp add: Less_def key_def)

lemma key_Swap:
  "i < length (handlers h) \<Longrightarrow> j < length (handlers h) \<Longrightarrow>
   key (Swap h i j) k = (if k = j then key h i else if k = i then key h j else key h k)"
  by (simp add: key_def Swap_def nth_list_update)

lemma up_heap:
  "j < length (handlers h) \<Longrightarrow> up_inv h j (length (handlers h)) \<Longrightarrow>
   heap_upto (up h j) (length (handlers h))"
proof (induction h j rule: up_induct)
  case (stop h j)
  have "heap_upto h (length (handlers h))"
    unfolding heap_upto_def
  proof (intro allI impI)
    fix c assume c: "0 < c \<and> c < length (handlers h)"
    show "key h ((c - 1) div 2) \<le> key h c"
    proof (cases "c = j")
      case True
      with stop.hyps c have "\<not> Less h j ((j - 1) div 2)" by auto
      with True show ?thesis by (simp add: Less_key)
    next
      case False
      with stop.prems(2) c show ?thesis by (simp add: up_inv_def)
    qed
  qed
  with stop.hyps show ?case by (subst up_unfold) simp
next
  case (swap h j)
  define i where "i = (j - 1) div 2"
  define n where "n = length (handlers h)"
  have eq: "up h j = up (Swap h i j) i"
    using swap.hyps unfolding i_def by (subst up_unfold) simp
  have ij: "i < j" using swap.hyps(1) unfolding i_def by arith
  have jN: "j < n" using swap.prems(1) by (simp add: n_def)
  have iN: "i < n" using ij jN by simp
  have lt: "key h j < key h i" using swap.hyps(2) by (simp add: Less_key i_def)
  have ks: "\<And>k. key (Swap h i j) k = (if k = j then key h i else if k = i then key h j else key h k)"
    using key_Swap [of i h j] iN jN by (simp add: n_def)
  from swap.prems(2) have
    A1: "\<And>c. 0 < c \<Longrightarrow> c < n \<Longrightarrow> c \<noteq> j \<Longrightarrow> key h ((c - 1) div 2) \<le> key h c" and
    A2: "\<And>c. 0 < c \<Longrightarrow> c < n \<Longrightarrow> (c - 1) div 2 = j \<Longrightarrow> key h i \<le> key h c"
    using ij by (auto simp: up_inv_def i_def n_def)
  have "up_inv (Swap h i j) i n"
    unfolding up_inv_def
  proof (intro conjI allI impI)
    fix c assume c: "0 < c \<and> c < n \<and> c \<noteq> i"
    define p where "p = (c - 1) div 2"
    have pc: "p < c" using c unfolding p_def by arith
    have "key (Swap h i j) p \<le> key (Swap h i j) c"
    proof (cases "c = j")
      case True
      then have "p = i" by (simp add: p_def i_def)
      with True show ?thesis using lt ij by (simp add: ks)
    next
      case cj: False
      show ?thesis
      proof (cases "p = j")
        case True
        then show ?thesis using A2 [of c] c cj ij by (simp add: ks p_def)
      next
        case pj: False
        show ?thesis
        proof (cases "p = i")
          case True
          then have "key h i \<le> key h c" using A1 [of c] c cj by (simp add: p_def)
          then show ?thesis using True lt c cj ij by (simp add: ks)
        next
          case False
          then show ?thesis using A1 [of c] c cj pj by (simp add: ks p_def)
        qed
      qed
    qed
    then show "key (Swap h i j) ((c - 1) div 2) \<le> key (Swap h i j) c"
      by (simp only: p_def)
  next
    fix c assume c: "0 < c \<and> c < n \<and> (c - 1) div 2 = i \<and> 0 < i"
    define g where "g = (i - 1) div 2"
    have gi: "g < i" using c unfolding g_def by arith
    have gp: "key h g \<le> key h i"
      using A1 [of i] c iN ij by (simp add: g_def)
    have kc: "key h i \<le> key h c \<or> c = j"
      using A1 [of c] c by auto
    have ci: "c \<noteq> i" "c \<noteq> g" using c gi by auto
    have "key (Swap h i j) g \<le> key (Swap h i j) c"
    proof (cases "c = j")
      case True
      then show ?thesis using gp gi ij by (simp add: ks)
    next
      case False
      then show ?thesis using gp kc gi ij ci by (simp add: ks)
    qed
    then show "key (Swap h i j) ((i - 1) div 2) \<le> key (Swap h i j) c"
      by (simp only: g_def)
  qed
  moreover have len: "length (handlers (Swap h i j)) = n"
    by (simp add: Swap_def n_def)
  moreover note swap.IH [folded i_def] iN
  ultimately have "heap_upto (up (Swap h i j) i) n"
    by simp
  then show ?case by (simp add: eq n_def)
qed


lemma minChild_parent: "(minChild h i n - 1) div 2 = i"
  by (simp add: minChild_def)

lemma minChild_le:
  assumes "2 * i + 1 < n" "0 < c" "c < n" "(c - 1) div 2 = i"
  shows "key h (minChild h i n) \<le> key h c"
proof -
  from assms(2,4) have "c = 2 * i + 1 \<or> c = 2 * i + 1 + 1" by arith
  then show ?thesis
    using assms(3) by (auto simp: minChild_def Less_key)
qed

lemma down_heap:
  "n \<le> length (handlers h) \<Longrightarrow> down_inv h i n \<Longrightarrow> heap_upto (down h i n) n"
proof (induction h i n rule: down_induct)
  case (stop h i n)
  have "heap_upto h n"
    unfolding heap_upto_def
  proof (intro allI impI)
    fix c assume c: "0 < c \<and> c < n"
    show "key h ((c - 1) div 2) \<le> key h c"
    proof (cases "(c - 1) div 2 = i")
      case True
      with c have lt: "2 * i + 1 < n" by arith
      with stop.hyps have "key h i \<le> key h (minChild h i n)"
        by (simp add: Less_key)
      also have "\<dots> \<le> key h c"
        using minChild_le [OF lt _ _ True] c by simp
      finally show ?thesis using True by simp
    next
      case False
      with stop.prems(2) c show ?thesis by (simp add: down_inv_def)
    qed
  qed
  with stop.hyps show ?case by (subst down_unfold) simp
next
  case (swap h i n)
  define m where "m = minChild h i n"
  have eq: "down h i n = down (Swap h i m) m n"
    using swap.hyps unfolding m_def by (subst down_unfold) simp
  have im: "i < m" and mn: "m < n"
    using minChild_bounds [OF swap.hyps(1), of h] by (simp_all add: m_def)
  have pm: "(m - 1) div 2 = i" using minChild_parent [of h i n] by (simp add: m_def)
  have lt: "key h m < key h i" using swap.hyps(2) by (simp add: Less_key m_def)
  have ks: "\<And>k. key (Swap h i m) k = (if k = m then key h i else if k = i then key h m else key h k)"
    using key_Swap [of i h m] im mn swap.prems(1) by simp
  from swap.prems(2) have
    A1: "\<And>c. 0 < c \<Longrightarrow> c < n \<Longrightarrow> (c - 1) div 2 \<noteq> i \<Longrightarrow> key h ((c - 1) div 2) \<le> key h c" and
    A2: "\<And>c. 0 < c \<Longrightarrow> c < n \<Longrightarrow> (c - 1) div 2 = i \<Longrightarrow> 0 < i \<Longrightarrow> key h ((i - 1) div 2) \<le> key h c"
    by (auto simp: down_inv_def)
  have sib: "\<And>c. 0 < c \<Longrightarrow> c < n \<Longrightarrow> (c - 1) div 2 = i \<Longrightarrow> key h m \<le> key h c"
    using minChild_le [OF swap.hyps(1)] by (simp add: m_def)
  have "down_inv (Swap h i m) m n"
    unfolding down_inv_def
  proof (intro conjI allI impI)
    fix c assume c: "0 < c \<and> c < n \<and> (c - 1) div 2 \<noteq> m"
    define p where "p = (c - 1) div 2"
    have pc: "p < c" using c unfolding p_def by arith
    have "key (Swap h i m) p \<le> key (Swap h i m) c"
    proof (cases "p = i")
      case True
      show ?thesis
      proof (cases "c = m")
        case True
        with \<open>p = i\<close> show ?thesis using lt im by (simp add: ks)
      next
        case False
        have "key h m \<le> key h c" using sib [of c] c True by (simp add: p_def)
        with False True show ?thesis using pc im by (simp add: ks)
      qed
    next
      case pi: False
      have pm': "p \<noteq> m" using c by (simp add: p_def)
      have cm: "c \<noteq> m" using pm pi by (auto simp: p_def)
      show ?thesis
      proof (cases "c = i")
        case True
        with c have "0 < i" by simp
        then have "key h ((i - 1) div 2) \<le> key h m"
          using A2 [of m] mn im pm by simp
        with True show ?thesis using pi pm' im by (simp add: ks p_def)
      next
        case False
        then show ?thesis using A1 [of c] c pi pm' cm by (simp add: ks p_def)
      qed
    qed
    then show "key (Swap h i m) ((c - 1) div 2) \<le> key (Swap h i m) c"
      by (simp only: p_def)
  next
    fix c assume c: "0 < c \<and> c < n \<and> (c - 1) div 2 = m \<and> 0 < m"
    have mc: "m < c" using c by arith
    have "key h m \<le> key h c" using A1 [of c] c im by simp
    then have "key (Swap h i m) i \<le> key (Swap h i m) c"
      using mc im by (simp add: ks)
    then show "key (Swap h i m) ((m - 1) div 2) \<le> key (Swap h i m) c"
      by (simp only: pm)
  qed
  moreover have "n \<le> length (handlers (Swap h i m))"
    using swap.prems(1) by (simp add: Swap_def)
  moreover note swap.IH [folded m_def]
  ultimately have "heap_upto (down (Swap h i m) m n) n"
    by simp
  then show ?case by (simp add: eq)
qed

lemma heap_root_min:
  assumes "heap_upto h n"
  shows "k < n \<Longrightarrow> key h 0 \<le> key h k"
proof (induction k rule: less_induct)
  case (less k)
  show ?case
  proof (cases "k = 0")
    case True
    then show ?thesis by simp
  next
    case False
    then have p: "(k - 1) div 2 < k" by arith
    have "key h 0 \<le> key h ((k - 1) div 2)"
      using less.IH [OF p] p less.prems by simp
    also have "\<dots> \<le> key h k"
      using assms False less.prems by (simp add: heap_upto_def)
    finally show ?thesis .
  qed
qed

lemma key_frame:
  "mem h' = mem h \<Longrightarrow> handlers h' ! k = handlers h ! k \<Longrightarrow> key h' k = key h k"
  by (simp add: key_def)

lemma up_mem [simp]: "mem (up h j) = mem h"
  by (subst up_frame) simp

lemma down_mem [simp]: "mem (down h i n) = mem h"
  by (subst down_frame) simp

lemma heap_Push_mem [simp]: "mem (heap_Push h x) = mem h"
  by (simp add: heap_Push_def Let_def Push_def)

lemma heap_Push_inv:
  assumes "heap_inv h"
  shows "heap_inv (heap_Push h x)"
proof -
  define n where "n = length (handlers h)"
  define h1 where "h1 = Push h x"
  have len: "length (handlers h1) = Suc n"
    by (simp add: h1_def Push_def n_def)
  have keys: "\<And>k. k < n \<Longrightarrow> key h1 k = key h k"
    by (simp add: key_def h1_def Push_def n_def nth_append)
  have "up_inv h1 n (Suc n)"
    unfolding up_inv_def
  proof (intro conjI allI impI)
    fix c assume c: "0 < c \<and> c < Suc n \<and> c \<noteq> n"
    then have cn: "c < n" by simp
    have "(c - 1) div 2 < n" using c by arith
    then show "key h1 ((c - 1) div 2) \<le> key h1 c"
      using assms c cn by (simp add: keys heap_inv_def heap_upto_def n_def)
  next
    fix c assume c: "0 < c \<and> c < Suc n \<and> (c - 1) div 2 = n \<and> 0 < n"
    then have False by arith
    then show "key h1 ((n - 1) div 2) \<le> key h1 c" ..
  qed
  then have "heap_upto (up h1 n) (Suc n)"
    using up_heap [of n h1] len by simp
  then show ?thesis
    by (simp add: heap_inv_def heap_Push_def Let_def Len_def h1_def [symmetric] len)
qed


lemma heap_Pop_inv:
  assumes "heap_inv h" "heap_Pop h = Some (x, h')"
  shows "heap_inv h'"
proof -
  from assms(2) have ne: "handlers h \<noteq> []"
    by (auto simp: heap_Pop_def Len_def split: if_splits)
  define n where "n = length (handlers h) - 1"
  define h1 where "h1 = Swap h 0 n"
  define h2 where "h2 = down h1 0 n"
  have n: "n < length (handlers h)" using ne by (simp add: n_def)
  have h': "h' = h2\<lparr>handlers := butlast (handlers h2)\<rparr>"
    using heap_Pop_Some [OF ne] assms(2) by (simp add: h2_def h1_def n_def)
  have len1: "length (handlers h1) = Suc n"
    using ne by (simp add: h1_def Swap_def n_def)
  have len2: "length (handlers h2) = Suc n"
    using len1 by (simp add: h2_def)
  have ks: "\<And>k. key h1 k = (if k = n then key h 0 else if k = 0 then key h n else key h k)"
    using key_Swap [of 0 h n] n ne unfolding h1_def by simp
  have "down_inv h1 0 n"
    unfolding down_inv_def
  proof (intro conjI allI impI)
    fix c assume c: "0 < c \<and> c < n \<and> (c - 1) div 2 \<noteq> 0"
    then have "(c - 1) div 2 < n" by arith
    moreover have "key h ((c - 1) div 2) \<le> key h c"
      using assms(1) c n by (simp add: heap_inv_def heap_upto_def)
    ultimately show "key h1 ((c - 1) div 2) \<le> key h1 c"
      using c by (simp add: ks)
  next
    fix c assume "0 < c \<and> c < n \<and> (c - 1) div 2 = 0 \<and> 0 < (0::nat)"
    then show "key h1 ((0 - 1) div 2) \<le> key h1 c" by simp
  qed
  then have up2: "heap_upto h2 n"
    unfolding h2_def using len1 by (intro down_heap) simp_all
  have k2: "\<And>k. k < n \<Longrightarrow> key h' k = key h2 k"
    using len2 by (simp add: key_def h' nth_butlast)
  have lenh': "length (handlers h') = n"
    using len2 by (simp add: h')
  show ?thesis
    unfolding heap_inv_def heap_upto_def lenh'
  proof (intro allI impI)
    fix c assume c: "0 < c \<and> c < n"
    then have p: "(c - 1) div 2 < n" by arith
    have "key h2 ((c - 1) div 2) \<le> key h2 c"
      using up2 c by (simp add: heap_upto_def)
    then show "key h' ((c - 1) div 2) \<le> key h' c"
      using k2 [OF p] k2 [of c] c by simp
  qed
qed

lemma heap_Pop_min:
  assumes "heap_inv h" "heap_Pop h = Some (x, h')" "a \<in> set (handlers h)"
  shows "priority (mem h x) \<le> priority (mem h a)"
proof -
  from assms(2) have ne: "handlers h \<noteq> []"
    by (auto simp: heap_Pop_def Len_def split: if_splits)
  have x: "x = handlers h ! 0"
    using heap_Pop_Some [OF ne] assms(2) ne by (simp add: hd_conv_nth)
  from assms(3) obtain k where k: "k < length (handlers h)" "a = handlers h ! k"
    by (auto simp: in_set_conv_nth)
  have "key h 0 \<le> key h k"
    using heap_root_min [of h "length (handlers h)" k] assms(1) k(1) by (simp add: heap_inv_def)
  then show ?thesis by (simp add: key_def x k(2))
qed

lemma heap_Pop_mem:
  assumes "heap_Pop h = Some (x, h')"
  shows "mem h' = mem h"
proof -
  from assms have ne: "handlers h \<noteq> []"
    by (auto simp: heap_Pop_def Len_def split: if_splits)
  show ?thesis
    using heap_Pop_Some [OF ne] assms by (auto simp: Swap_def)
qed

lemma heap_inv_mem_cong:
  assumes "heap_inv h" "handlers h' = handlers h"
    and "\<And>a. priority (mem h' a) = priority (mem h a)"
  shows "heap_inv h'"
  using assms by (simp add: heap_inv_def heap_upto_def key_def)

lemma bucketAllow_priority [simp]: "priority (mem (bucketAllow b x t) a) = priority (mem b a)"
  by (simp add: bucketAllow_def allowHandler_def split: prod.splits)

lemma bucketAllow_name [simp]: "name (mem (bucketAllow b x t) a) = name (mem b a)"
  by (simp add: bucketAllow_def allowHandler_def split: prod.splits)

lemma bucketAllow_inv: "heap_inv b \<Longrightarrow> heap_inv (bucketAllow b x t)"
  by (rule heap_inv_mem_cong [of b]) simp_all

lemma pushAll_inv: "heap_inv b \<Longrightarrow> heap_inv (pushAll b xs)"
  by (induction xs arbitrary: b) (simp_all add: heap_Push_inv)

lemma pushAll_mset: "mset (handlers (pushAll b xs)) = mset (handlers b) + mset xs"
  by (induction xs arbitrary: b) (simp_all add: heap_Push_mset)

lemma pushAll_mem [simp]: "mem (pushAll b xs) = mem b"
  by (induction xs arbitrary: b) simp_all


section \<open>The selection round\<close>

lemma heap_Push_frame: "heap_Push h x = h\<lparr>handlers := handlers (heap_Push h x)\<rparr>"
  unfolding heap_Push_def Let_def by (subst (1 2) up_frame) (simp add: Push_def)

lemma pushAll_frame: "pushAll b xs = b\<lparr>handlers := handlers (pushAll b xs)\<rparr>"
proof (induction xs arbitrary: b)
  case Nil
  show ?case by simp
next
  case (Cons x xs)
  have "pushAll (heap_Push b x) xs = (heap_Push b x)\<lparr>handlers := handlers (pushAll (heap_Push b x) xs)\<rparr>"
    by (rule Cons.IH)
  also have "\<dots> = b\<lparr>handlers := handlers (pushAll (heap_Push b x) xs)\<rparr>"
    by (subst heap_Push_frame) simp
  finally show ?case by simp
qed

lemma heap_Pop_frame:
  assumes "heap_Pop h = Some (x, h')"
  shows "h' = h\<lparr>handlers := handlers h'\<rparr>"
proof -
  from assms have ne: "handlers h \<noteq> []"
    by (auto simp: heap_Pop_def Len_def split: if_splits)
  define h2 where "h2 = down (Swap h 0 (length (handlers h) - 1)) 0 (length (handlers h) - 1)"
  have "h2 = (Swap h 0 (length (handlers h) - 1))\<lparr>handlers := handlers h2\<rparr>"
    unfolding h2_def by (rule down_frame)
  then have "h2 = h\<lparr>handlers := handlers h2\<rparr>"
    by (simp add: Swap_def)
  moreover have "h' = h2\<lparr>handlers := butlast (handlers h2)\<rparr>"
    using heap_Pop_Some [OF ne] assms by (simp add: h2_def)
  ultimately show ?thesis
    by (metis LBBalancer.select_convs(2) LBBalancer.surjective LBBalancer.update_convs(2))
qed

lemma bucketAllow_frame: "bucketAllow b x t = b\<lparr>mem := mem (bucketAllow b x t)\<rparr>"
  by (simp add: bucketAllow_def)

lemma nextServer_loop_drained:
  "handlers b = [] \<Longrightarrow>
   nextServer_loop now b ps = (Inl errNoAvailableServer, pushAll b ps, ps)"
  by (subst nextServer_loop.simps) (simp add: Len_def)

lemma nextServer_loop_step:
  assumes "heap_Pop b = Some (x, b1)"
  shows "nextServer_loop now b ps =
     (if name (mem (bucketAllow b1 x (now (length ps))) x) \<in> status (bucketAllow b1 x (now (length ps)))
         \<and> canAllow (mem (bucketAllow b1 x (now (length ps))) x)
      then (Inr x, pushAll (bucketAllow b1 x (now (length ps))) (ps @ [x]), ps @ [x])
      else nextServer_loop now (bucketAllow b1 x (now (length ps))) (ps @ [x]))"
proof -
  from assms have "Len b \<noteq> 0"
    by (auto simp: heap_Pop_def split: if_splits)
  with assms show ?thesis
    by (subst nextServer_loop.simps) (simp add: Let_def)
qed

lemma nextServer_loop_induct [case_names drained found skip]:
  assumes "\<And>b ps. handlers b = [] \<Longrightarrow> P b ps"
    and "\<And>b ps x b1 b2. heap_Pop b = Some (x, b1) \<Longrightarrow>
           b2 = bucketAllow b1 x (now (length ps)) \<Longrightarrow>
           name (mem b2 x) \<in> status b2 \<and> canAllow (mem b2 x) \<Longrightarrow> P b ps"
    and "\<And>b ps x b1 b2. heap_Pop b = Some (x, b1) \<Longrightarrow>
           b2 = bucketAllow b1 x (now (length ps)) \<Longrightarrow>
           \<not> (name (mem b2 x) \<in> status b2 \<and> canAllow (mem b2 x)) \<Longrightarrow>
           P b2 (ps @ [x]) \<Longrightarrow> P b ps"
  shows "P b ps"
proof (induction "length (handlers b)" arbitrary: b ps rule: less_induct)
  case (less b ps)
  show ?case
  proof (cases "handlers b = []")
    case True
    then show ?thesis by (rule assms(1))
  next
    case False
    obtain x b1 where pop: "heap_Pop b = Some (x, b1)"
      using heap_Pop_Some [OF False] by blast
    define b2 where "b2 = bucketAllow b1 x (now (length ps))"
    have "length (handlers b2) < length (handlers b)"
      using heap_Pop_length [OF pop] by (simp add: b2_def)
    then have IH: "P b2 (ps @ [x])" by (rule less.hyps)
    show ?thesis
    proof (cases "name (mem b2 x) \<in> status b2 \<and> canAllow (mem b2 x)")
      case True
      with pop b2_def show ?thesis by (rule assms(2))
    next
      case False
      with pop b2_def show ?thesis using IH by (rule assms(3))
    qed
  qed
qed


text \<open>What a selection round never touches: the balancer's configuration, and the static
  parameters of an entry.\<close>

definition config :: "LBBalancer \<Rightarrow> bool \<times> string set \<times> updater list \<times> addr" where
  "config b = (wantsHealthCheck b, status b, updaters b, nalloc b)"

definition static :: "namedHandler \<Rightarrow> string \<times> int \<times> int \<times> Duration \<times> int" where
  "static h = (name h, burst h, average h, period h, priority h)"

lemma config_heap_Push [simp]: "config (heap_Push h x) = config h"
  by (subst heap_Push_frame) (simp add: config_def)

lemma config_pushAll [simp]: "config (pushAll b xs) = config b"
  by (subst pushAll_frame) (simp add: config_def)

lemma config_heap_Pop: "heap_Pop h = Some (x, h') \<Longrightarrow> config h' = config h"
  by (drule heap_Pop_frame, erule ssubst) (simp add: config_def)

lemma config_bucketAllow [simp]: "config (bucketAllow b x t) = config b"
  by (subst bucketAllow_frame) (simp add: config_def)

lemma static_bucketAllow [simp]: "static (mem (bucketAllow b x t) a) = static (mem b a)"
  by (simp add: bucketAllow_def allowHandler_def static_def split: prod.splits)

lemma status_config: "config b' = config b \<Longrightarrow> status b' = status b"
  by (simp add: config_def)

lemma nextServer_loop_found:
  assumes "heap_Pop b = Some (x, b1)" "b2 = bucketAllow b1 x (now (length ps))"
    "name (mem b2 x) \<in> status b2 \<and> canAllow (mem b2 x)"
  shows "nextServer_loop now b ps = (Inr x, pushAll b2 (ps @ [x]), ps @ [x])"
  using assms(3) unfolding assms(2) nextServer_loop_step [OF assms(1)] by (rule if_P)

lemma nextServer_loop_skip:
  assumes "heap_Pop b = Some (x, b1)" "b2 = bucketAllow b1 x (now (length ps))"
    "\<not> (name (mem b2 x) \<in> status b2 \<and> canAllow (mem b2 x))"
  shows "nextServer_loop now b ps = nextServer_loop now b2 (ps @ [x])"
  using assms(3) unfolding assms(2) nextServer_loop_step [OF assms(1)] by (rule if_not_P)

lemma nextServer_loop_foundD:
  assumes "nextServer_loop now b ps = (r, b', ps')"
    "heap_Pop b = Some (x, b1)" "b2 = bucketAllow b1 x (now (length ps))"
    "name (mem b2 x) \<in> status b2 \<and> canAllow (mem b2 x)"
  shows "r = Inr x" "b' = pushAll b2 (ps @ [x])" "ps' = ps @ [x]"
  using assms(1) unfolding nextServer_loop_found [where now = now and ps = ps, OF assms(2-4)]
  by auto

lemma nextServer_loop_skipD:
  assumes "nextServer_loop now b ps = (r, b', ps')"
    "heap_Pop b = Some (x, b1)" "b2 = bucketAllow b1 x (now (length ps))"
    "\<not> (name (mem b2 x) \<in> status b2 \<and> canAllow (mem b2 x))"
  shows "nextServer_loop now b2 (ps @ [x]) = (r, b', ps')"
  using assms(1) unfolding nextServer_loop_skip [where now = now and ps = ps, OF assms(2-4)] .

lemma nextServer_loop_config:
  "nextServer_loop now b ps = (r, b', ps') \<Longrightarrow> config b' = config b"
proof (induction b ps arbitrary: r b' ps' rule: nextServer_loop_induct [where now = now])
  case (drained b ps)
  then show ?case by (auto simp add: nextServer_loop_drained)
next
  case (found b ps x b1 b2)
  have "b' = pushAll b2 (ps @ [x])"
    using found.prems found.hyps by (rule nextServer_loop_foundD)
  with found.hyps(1,2) show ?case
    by (simp add: config_heap_Pop)
next
  case (skip b ps x b1 b2)
  have "nextServer_loop now b2 (ps @ [x]) = (r, b', ps')"
    using skip.prems skip.hyps by (rule nextServer_loop_skipD)
  then have "config b' = config b2" by (rule skip.IH)
  with skip.hyps(1,2) show ?case by (simp add: config_heap_Pop)
qed

lemma nextServer_loop_static:
  "nextServer_loop now b ps = (r, b', ps') \<Longrightarrow> static (mem b' a) = static (mem b a)"
proof (induction b ps arbitrary: r b' ps' rule: nextServer_loop_induct [where now = now])
  case (drained b ps)
  then show ?case by (auto simp add: nextServer_loop_drained)
next
  case (found b ps x b1 b2)
  have "b' = pushAll b2 (ps @ [x])"
    using found.prems found.hyps by (rule nextServer_loop_foundD)
  with found.hyps(1,2) show ?case
    by (simp add: heap_Pop_mem)
next
  case (skip b ps x b1 b2)
  have "nextServer_loop now b2 (ps @ [x]) = (r, b', ps')"
    using skip.prems skip.hyps by (rule nextServer_loop_skipD)
  then have "static (mem b' a) = static (mem b2 a)" by (rule skip.IH)
  with skip.hyps(1,2) show ?case by (simp add: heap_Pop_mem)
qed

lemma nextServer_loop_mset:
  "nextServer_loop now b ps = (r, b', ps') \<Longrightarrow>
   mset (handlers b') = mset (handlers b) + mset ps"
proof (induction b ps arbitrary: r b' ps' rule: nextServer_loop_induct [where now = now])
  case (drained b ps)
  then show ?case by (auto simp add: nextServer_loop_drained pushAll_mset)
next
  case (found b ps x b1 b2)
  have "b' = pushAll b2 (ps @ [x])"
    using found.prems found.hyps by (rule nextServer_loop_foundD)
  with found.hyps(1,2) show ?case
    using heap_Pop_mset [of b x b1] by (simp add: pushAll_mset)
next
  case (skip b ps x b1 b2)
  have "nextServer_loop now b2 (ps @ [x]) = (r, b', ps')"
    using skip.prems skip.hyps by (rule nextServer_loop_skipD)
  then have "mset (handlers b') = mset (handlers b2) + mset (ps @ [x])" by (rule skip.IH)
  with skip.hyps(1,2) show ?case
    using heap_Pop_mset [of b x b1] by simp
qed

lemma nextServer_loop_result:
  "nextServer_loop now b ps = (r, b', ps') \<Longrightarrow>
   \<exists>ys. ps' = ps @ ys \<and> mset ys \<subseteq># mset (handlers b) \<and>
      (case r of
         Inl e \<Rightarrow> e = errNoAvailableServer \<and> mset ys = mset (handlers b)
       | Inr x \<Rightarrow> ys \<noteq> [] \<and> last ys = x \<and> name (mem b' x) \<in> status b' \<and> canAllow (mem b' x))"
proof (induction b ps arbitrary: r b' ps' rule: nextServer_loop_induct [where now = now])
  case (drained b ps)
  then show ?case by (auto simp add: nextServer_loop_drained)
next
  case (found b ps x b1 b2)
  have r: "r = Inr x" "b' = pushAll b2 (ps @ [x])" "ps' = ps @ [x]"
    using found.prems found.hyps by (rule nextServer_loop_foundD)+
  have "status b' = status b2"
    by (rule status_config) (simp add: r)
  with found.hyps(3) r heap_Pop_mset [OF found.hyps(1)] show ?case
    by (intro exI [of _ "[x]"]) simp
next
  case (skip b ps x b1 b2)
  have "nextServer_loop now b2 (ps @ [x]) = (r, b', ps')"
    using skip.prems skip.hyps by (rule nextServer_loop_skipD)
  from skip.IH [OF this] obtain ys where ys: "ps' = (ps @ [x]) @ ys"
    "mset ys \<subseteq># mset (handlers b2)"
    "case r of
         Inl e \<Rightarrow> e = errNoAvailableServer \<and> mset ys = mset (handlers b2)
       | Inr x \<Rightarrow> ys \<noteq> [] \<and> last ys = x \<and> name (mem b' x) \<in> status b' \<and> canAllow (mem b' x)"
    by blast
  have m: "mset (handlers b) = add_mset x (mset (handlers b2))"
    using heap_Pop_mset [OF skip.hyps(1)] skip.hyps(2) by simp
  show ?case
  proof (intro exI [of _ "x # ys"] conjI)
    show "ps' = ps @ x # ys" using ys(1) by simp
    show "mset (x # ys) \<subseteq># mset (handlers b)" using ys(2) m by simp
    show "case r of
         Inl e \<Rightarrow> e = errNoAvailableServer \<and> mset (x # ys) = mset (handlers b)
       | Inr xa \<Rightarrow> x # ys \<noteq> [] \<and> last (x # ys) = xa \<and> name (mem b' xa) \<in> status b' \<and> canAllow (mem b' xa)"
      using ys(3) m by (cases r) auto
  qed
qed


lemma heap_Pop_distinct:
  assumes "distinct (handlers h)" "heap_Pop h = Some (x, h')"
  shows "distinct (handlers h') \<and> x \<notin> set (handlers h') \<and>
         set (handlers h) = insert x (set (handlers h'))"
proof -
  have m: "mset (handlers h) = mset (x # handlers h')"
    using heap_Pop_mset [OF assms(2)] by simp
  then have "distinct (x # handlers h')"
    using assms(1) mset_eq_imp_distinct_iff by blast
  moreover have "set (handlers h) = set (x # handlers h')"
    using m by (rule mset_eq_setD)
  ultimately show ?thesis by simp
qed

lemma nextServer_loop_mem:
  "distinct (handlers b) \<Longrightarrow> nextServer_loop now b ps = (r, b', ps') \<Longrightarrow>
   \<exists>ys. ps' = ps @ ys \<and>
     (\<forall>k<length ys. mem b' (ys ! k) = allowHandler (mem b (ys ! k)) (now (length ps + k))) \<and>
     (\<forall>a. a \<notin> set ys \<longrightarrow> mem b' a = mem b a)"
proof (induction b ps arbitrary: r b' ps' rule: nextServer_loop_induct [where now = now])
  case (drained b ps)
  then show ?case by (auto simp add: nextServer_loop_drained)
next
  case (found b ps x b1 b2)
  have r: "b' = pushAll b2 (ps @ [x])" "ps' = ps @ [x]"
    using found.prems(2) found.hyps by (rule nextServer_loop_foundD)+
  have "mem b' = (mem b)(x := allowHandler (mem b x) (now (length ps)))"
    using found.hyps(1,2) by (simp add: r bucketAllow_def heap_Pop_mem)
  then show ?case
    using r by (intro exI [of _ "[x]"]) simp
next
  case (skip b ps x b1 b2)
  have loop: "nextServer_loop now b2 (ps @ [x]) = (r, b', ps')"
    using skip.prems(2) skip.hyps by (rule nextServer_loop_skipD)
  have d: "distinct (handlers b2)" "x \<notin> set (handlers b2)"
    using heap_Pop_distinct [OF skip.prems(1) skip.hyps(1)] skip.hyps(2) by simp_all
  from skip.IH [OF d(1) loop] obtain ys where ys: "ps' = (ps @ [x]) @ ys"
    "\<forall>k<length ys. mem b' (ys ! k) = allowHandler (mem b2 (ys ! k)) (now (length (ps @ [x]) + k))"
    "\<forall>a. a \<notin> set ys \<longrightarrow> mem b' a = mem b2 a"
    by blast
  from nextServer_loop_result [OF loop] ys(1) have "mset ys \<subseteq># mset (handlers b2)"
    by auto
  then have sub: "set ys \<subseteq> set (handlers b2)"
    by (metis set_mset_mono set_mset_mset)
  with d(2) have xys: "x \<notin> set ys" by auto
  have m2: "mem b2 = (mem b)(x := allowHandler (mem b x) (now (length ps)))"
    using skip.hyps(1,2) by (simp add: bucketAllow_def heap_Pop_mem)
  show ?case
  proof (intro exI [of _ "x # ys"] conjI allI impI)
    show "ps' = ps @ x # ys" using ys(1) by simp
  next
    fix k assume k: "k < length (x # ys)"
    show "mem b' ((x # ys) ! k) = allowHandler (mem b ((x # ys) ! k)) (now (length ps + k))"
    proof (cases k)
      case 0
      then show ?thesis using ys(3) xys m2 by simp
    next
      case (Suc j)
      with k have j: "j < length ys" by simp
      then have "ys ! j \<noteq> x" using xys by (metis nth_mem)
      then show ?thesis using ys(2) j Suc m2 by simp
    qed
  next
    fix a assume "a \<notin> set (x # ys)"
    then show "mem b' a = mem b a" using ys(3) m2 by simp
  qed
qed

lemma nextServer_loop_inv:
  "heap_inv b \<Longrightarrow> nextServer_loop now b ps = (r, b', ps') \<Longrightarrow> heap_inv b'"
proof (induction b ps arbitrary: r b' ps' rule: nextServer_loop_induct [where now = now])
  case (drained b ps)
  then show ?case by (auto simp add: nextServer_loop_drained pushAll_inv)
next
  case (found b ps x b1 b2)
  have r: "b' = pushAll b2 (ps @ [x])"
    using found.prems(2) found.hyps by (rule nextServer_loop_foundD)
  have "heap_inv b2"
    using heap_Pop_inv [OF found.prems(1) found.hyps(1)] found.hyps(2) by (simp add: bucketAllow_inv)
  then show ?case unfolding r by (rule pushAll_inv)
next
  case (skip b ps x b1 b2)
  have loop: "nextServer_loop now b2 (ps @ [x]) = (r, b', ps')"
    using skip.prems(2) skip.hyps by (rule nextServer_loop_skipD)
  have "heap_inv b2"
    using heap_Pop_inv [OF skip.prems(1) skip.hyps(1)] skip.hyps(2) by (simp add: bucketAllow_inv)
  then show ?case using loop by (rule skip.IH)
qed

lemma nextServer_loop_order:
  "heap_inv b \<Longrightarrow> nextServer_loop now b ps = (r, b', ps') \<Longrightarrow>
   \<exists>ys. ps' = ps @ ys \<and>
     sorted_wrt (\<lambda>x y. priority (mem b x) \<le> priority (mem b y)) ys \<and>
     (\<forall>k<length ys. \<forall>a. a \<in># mset (handlers b) - mset (take k ys) \<longrightarrow>
         priority (mem b (ys ! k)) \<le> priority (mem b a))"
proof (induction b ps arbitrary: r b' ps' rule: nextServer_loop_induct [where now = now])
  case (drained b ps)
  then show ?case by (auto simp add: nextServer_loop_drained)
next
  case (found b ps x b1 b2)
  have r: "ps' = ps @ [x]"
    using found.prems(2) found.hyps by (rule nextServer_loop_foundD)
  have "\<And>a. a \<in> set (handlers b) \<Longrightarrow> priority (mem b x) \<le> priority (mem b a)"
    using heap_Pop_min [OF found.prems(1) found.hyps(1)] .
  then show ?case
    using r by (intro exI [of _ "[x]"]) simp
next
  case (skip b ps x b1 b2)
  have loop: "nextServer_loop now b2 (ps @ [x]) = (r, b', ps')"
    using skip.prems(2) skip.hyps by (rule nextServer_loop_skipD)
  have inv2: "heap_inv b2"
    using heap_Pop_inv [OF skip.prems(1) skip.hyps(1)] skip.hyps(2) by (simp add: bucketAllow_inv)
  have pr: "\<And>a. priority (mem b2 a) = priority (mem b a)"
    using skip.hyps(1,2) by (simp add: heap_Pop_mem)
  have m: "mset (handlers b) = add_mset x (mset (handlers b2))"
    using heap_Pop_mset [OF skip.hyps(1)] skip.hyps(2) by simp
  have xmin: "\<And>a. a \<in> set (handlers b) \<Longrightarrow> priority (mem b x) \<le> priority (mem b a)"
    using heap_Pop_min [OF skip.prems(1) skip.hyps(1)] .
  from skip.IH [OF inv2 loop] obtain ys where ys: "ps' = (ps @ [x]) @ ys"
    "sorted_wrt (\<lambda>x y. priority (mem b x) \<le> priority (mem b y)) ys"
    "\<forall>k<length ys. \<forall>a. a \<in># mset (handlers b2) - mset (take k ys) \<longrightarrow>
         priority (mem b (ys ! k)) \<le> priority (mem b a)"
    unfolding pr by blast
  from nextServer_loop_result [OF loop] ys(1) have "mset ys \<subseteq># mset (handlers b2)"
    by auto
  then have "set ys \<subseteq> set (handlers b2)"
    by (metis set_mset_mono set_mset_mset)
  also have "\<dots> \<subseteq> set (handlers b)"
    using m by (metis mset_eq_setD set_mset_add_mset_insert set_mset_mset subset_insertI)
  finally have sub: "set ys \<subseteq> set (handlers b)" .
  show ?case
  proof (intro exI [of _ "x # ys"] conjI allI impI)
    show "ps' = ps @ x # ys" using ys(1) by simp
  next
    show "sorted_wrt (\<lambda>x y. priority (mem b x) \<le> priority (mem b y)) (x # ys)"
      using ys(2) sub xmin by auto
  next
    fix k a
    assume k: "k < length (x # ys)" and a: "a \<in># mset (handlers b) - mset (take k (x # ys))"
    show "priority (mem b ((x # ys) ! k)) \<le> priority (mem b a)"
    proof (cases k)
      case 0
      with a have "a \<in> set (handlers b)" by simp
      with 0 show ?thesis using xmin by simp
    next
      case (Suc j)
      with k have j: "j < length ys" by simp
      from a Suc have "a \<in># mset (handlers b2) - mset (take j ys)"
        by (simp add: m)
      with ys(3) j Suc show ?thesis by simp
    qed
  qed
qed

lemma nextServer_cases:
  "nextServer now b = (Inl errNoAvailableServer, b) \<and> (handlers b = [] \<or> status b = {}) \<or>
   (handlers b \<noteq> [] \<and> status b \<noteq> {} \<and>
    nextServer_loop now b [] =
      (fst (nextServer now b), snd (nextServer now b), snd (snd (nextServer_loop now b []))))"
  by (auto simp: nextServer_def split: prod.splits)

lemma nextServer_mset: "mset (handlers (snd (nextServer now b))) = mset (handlers b)"
  using nextServer_cases [of now b] nextServer_loop_mset [of now b "[]"] by auto

lemma nextServer_static: "static (mem (snd (nextServer now b)) a) = static (mem b a)"
  using nextServer_cases [of now b] nextServer_loop_static [of now b "[]"] by auto

lemma nextServer_config: "config (snd (nextServer now b)) = config b"
  using nextServer_cases [of now b] nextServer_loop_config [of now b "[]"] by auto

lemma ServeHTTP_snd: "snd (ServeHTTP now b) = snd (nextServer now b)"
  by (auto simp: ServeHTTP_def nextServer_def split: prod.splits sum.splits)


section \<open>Histories\<close>

lemma Add_dropped: "a \<le> 0 \<Longrightarrow> Add b nm pburst (Some a) pperiod ppriority = b"
  by (simp add: Add_def Let_def)

lemma config_status_update: "config (b\<lparr>status := s\<rparr>) = (wantsHealthCheck b, s, updaters b, nalloc b)"
  by (simp add: config_def)

lemma Add_wantsHealthCheck [simp]:
  "wantsHealthCheck (Add b nm pburst paverage pperiod ppriority) = wantsHealthCheck b"
proof -
  have "\<And>h x. wantsHealthCheck (heap_Push h x) = wantsHealthCheck h"
    by (subst heap_Push_frame) simp
  then show ?thesis by (simp add: Add_def Let_def)
qed

lemma Add_updaters [simp]:
  "updaters (Add b nm pburst paverage pperiod ppriority) = updaters b"
proof -
  have "\<And>h x. updaters (heap_Push h x) = updaters h"
    by (subst heap_Push_frame) simp
  then show ?thesis by (simp add: Add_def Let_def)
qed

lemma exec_fst [simp]:
  "fst (exec b (CallAdd nm pburst paverage pperiod ppriority)) = Add b nm pburst paverage pperiod ppriority"
  "fst (exec b (CallSetStatus childName up')) = fst (SetStatus b childName up')"
  "fst (exec b (CallRegisterStatusUpdater fn)) = snd (RegisterStatusUpdater b fn)"
  "fst (exec b (CallServeHTTP now)) = snd (ServeHTTP now b)"
  by (simp_all split: prod.splits)

lemma exec_wantsHealthCheck: "wantsHealthCheck (fst (exec b c)) = wantsHealthCheck b"
proof (cases c)
  case (CallAdd nm pburst paverage pperiod ppriority)
  then show ?thesis by (simp del: exec.simps)
next
  case (CallSetStatus childName up')
  then show ?thesis by (simp add: SetStatus_def Let_def del: exec.simps)
next
  case (CallRegisterStatusUpdater fn)
  then show ?thesis by (simp add: RegisterStatusUpdater_def del: exec.simps)
next
  case (CallServeHTTP now)
  have "config (snd (ServeHTTP now b)) = config b"
    by (simp add: ServeHTTP_snd nextServer_config)
  with CallServeHTTP show ?thesis
    by (simp add: config_def del: exec.simps)
qed

lemma run_wantsHealthCheck: "wantsHealthCheck (run b cs) = wantsHealthCheck b"
  by (induction cs arbitrary: b) (simp_all add: exec_wantsHealthCheck del: exec.simps)

section \<open>The claims\<close>

text \<open>
  C3.  A dispatch, whatever its outcome, leaves the pool as it found it: the multiset of
  entries (addresses) of \<^verbatim>\<open>handlers\<close> and its length are those before the call, for
  \<^verbatim>\<open>ServeHTTP\<close> and for \<^verbatim>\<open>nextServer\<close>, in every state and at every reading of the
  clock; and no entry's name, burst, average, period or priority has changed.
\<close>

theorem dispatch_preserves_pool:
  "mset (handlers (snd (ServeHTTP now b))) = mset (handlers b) \<and>
   length (handlers (snd (ServeHTTP now b))) = length (handlers b) \<and>
   mset (handlers (snd (nextServer now b))) = mset (handlers b) \<and>
   static (mem (snd (ServeHTTP now b)) a) = static (mem b a)"
proof -
  have m: "mset (handlers (snd (ServeHTTP now b))) = mset (handlers b)"
    by (simp add: ServeHTTP_snd nextServer_mset)
  then have "size (mset (handlers (snd (ServeHTTP now b)))) = size (mset (handlers b))"
    by simp
  then have "length (handlers (snd (ServeHTTP now b))) = length (handlers b)"
    by simp
  with m show ?thesis
    by (simp add: ServeHTTP_snd nextServer_mset nextServer_static)
qed

text \<open>
  C9.  On a balancer built by \<^verbatim>\<open>New(_, w)\<close> and taken through any history of calls,
  \<^verbatim>\<open>RegisterStatusUpdater\<close> returns an error exactly when \<open>w\<close> is false, and then the
  balancer (its list of updaters with it) is unchanged; when \<open>w\<close> is true it returns
  \<^verbatim>\<open>nil\<close> and the updater is appended to the list.
\<close>

theorem RegisterStatusUpdater_guard:
  "(fst (RegisterStatusUpdater (run (New w) cs) fn) \<noteq> None) = (\<not> w) \<and>
   (\<not> w \<longrightarrow> RegisterStatusUpdater (run (New w) cs) fn
              = (Some errHealthCheckNotEnabled, run (New w) cs)) \<and>
   (w \<longrightarrow> RegisterStatusUpdater (run (New w) cs) fn
            = (None, (run (New w) cs)\<lparr>updaters := updaters (run (New w) cs) @ [fn]\<rparr>))"
proof -
  have "wantsHealthCheck (run (New w) cs) = w"
    by (simp add: run_wantsHealthCheck New_def)
  then show ?thesis
    by (cases w) (simp_all add: RegisterStatusUpdater_def)
qed

theorem RegisterStatusUpdater_guard_witness:
  "RegisterStatusUpdater (run (New False) [CallSetStatus ''a'' True]) 7
     = (Some errHealthCheckNotEnabled, run (New False) [CallSetStatus ''a'' True]) \<and>
   fst (RegisterStatusUpdater (run (New True) [CallRegisterStatusUpdater 3]) 7) = None \<and>
   updaters (snd (RegisterStatusUpdater (run (New True) [CallRegisterStatusUpdater 3]) 7)) = [3, 7]"
proof -
  have "updaters (run (New True) [CallRegisterStatusUpdater 3]) = [3]"
    by (simp add: RegisterStatusUpdater_def New_def)
  then show ?thesis
    using RegisterStatusUpdater_guard [of False "[CallSetStatus ''a'' True]" 7]
      RegisterStatusUpdater_guard [of True "[CallRegisterStatusUpdater 3]" 7]
    by simp
qed

end
